theory Spec2Isabelle
  imports Complex_Main "HOL-Library.Multiset" "HOL-Library.Char_ord" "HOL-Library.List_Lexorder"
    "HOL-Library.Product_Lexorder"
begin

section \<open>Web UI: the Home component (login and pipeline request)\<close>

text \<open>
  \<^verbatim>\<open>Home\<close> keeps its login flag in React state, initially false:
  \<^verbatim>\<open>const [isAuthenticated, setIsAuthenticated] = useState(false);\<close>
  The record is extensible: the remaining state of the component (analytics flag,
  artifacts, active tab, ...) is the record's extension, which no login code touches.
\<close>

record home_state =
  isAuthenticated :: bool

definition home_initial :: "home_state" where
  "home_initial = \<lparr>isAuthenticated = False\<rparr>"

text \<open>
  The callback handed to the login page:
  \<^verbatim>\<open>(k) => k === "QYNTARA-X-777" && setIsAuthenticated(true)\<close>
\<close>

definition onLogin :: "string \<Rightarrow> 'a home_state_scheme \<Rightarrow> 'a home_state_scheme" where
  "onLogin k st = (if k = ''QYNTARA-X-777'' then st\<lparr>isAuthenticated := True\<rparr> else st)"

text \<open>
  \<^verbatim>\<open>if (!isAuthenticated) return <LoginPage onLogin={...} />;\<close>
  The login page (and with it \<open>onLogin\<close>) is rendered only while the flag is false.
\<close>

datatype home_view = LoginView | MainView

definition Home :: "'a home_state_scheme \<Rightarrow> home_view" where
  "Home st = (if \<not> isAuthenticated st then LoginView else MainView)"

text \<open>
  The login page keeps the typed text, \<^verbatim>\<open>const [key, setKey] = useState("")\<close>; the
  input's \<^verbatim>\<open>onChange\<close> stores the new text, and the AUTHENTICATE button submits the
  stored text: \<^verbatim>\<open>onClick={() => onLogin(key)}\<close>.
\<close>

record login_page =
  key :: string

definition LoginPage :: "login_page" where
  "LoginPage = \<lparr>key = []\<rparr>"

definition setKey :: "string \<Rightarrow> login_page \<Rightarrow> login_page" where
  "setKey v page = page\<lparr>key := v\<rparr>"

definition authenticate :: "login_page \<Rightarrow> 'a home_state_scheme \<Rightarrow> 'a home_state_scheme" where
  "authenticate page st = onLogin (key page) st"

text \<open>
  The request \<^verbatim>\<open>executePipeline\<close> passes to \<^verbatim>\<open>fetch\<close>. Only the presence of a
  file decides the endpoint and the header object:
  \<^verbatim>\<open>const endpoint = file ? 'http://localhost:8000/execute-visual' : 'http://localhost:8000/execute';\<close>
  \<^verbatim>\<open>const headers = file ? { "x-qyntara-key": "QYNTARA-X-777" }
     : { "Content-Type": "application/json", "x-qyntara-key": "QYNTARA-X-777" };\<close>
  A JavaScript object literal is an association list read by key.
\<close>

record request =
  endpoint :: string
  http_method :: string
  headers :: "(string \<times> string) list"

definition executePipeline_request :: "bool \<Rightarrow> request" where
  "executePipeline_request file =
     \<lparr>endpoint = (if file then ''http://localhost:8000/execute-visual''
                    else ''http://localhost:8000/execute''),
      http_method = ''POST'',
      headers = (if file then [(''x-qyntara-key'', ''QYNTARA-X-777'')]
                 else [(''Content-Type'', ''application/json''),
                       (''x-qyntara-key'', ''QYNTARA-X-777'')])\<rparr>"

section \<open>Web UI: the PipelineProgress component\<close>

text \<open>
  \<^verbatim>\<open>String.prototype.includes\<close>: whether the search string occurs somewhere in the
  string. \<open>starts_with\<close> compares at one position, \<open>str_includes\<close> tries every
  position from the left; the empty search string is found in every string.
\<close>

fun starts_with :: "'a list \<Rightarrow> 'a list \<Rightarrow> bool" where
  "starts_with s [] = True"
| "starts_with [] (k # ks) = False"
| "starts_with (c # cs) (k # ks) = (c = k \<and> starts_with cs ks)"

fun str_includes :: "'a list \<Rightarrow> 'a list \<Rightarrow> bool" where
  "str_includes [] k = starts_with [] k"
| "str_includes (c # cs) k = (starts_with (c # cs) k \<or> str_includes cs k)"

text \<open>
  The table of stages, in the order of the source. The index of a stage in this list is
  what \<open>currentStageIndex\<close> reports.
\<close>

record stage =
  stage_id :: string
  label :: string
  stage_keywords :: "string list"

definition STAGES :: "stage list" where
  "STAGES =
    [\<lparr>stage_id = ''segment'', label = ''SEGMENTATION'', stage_keywords = [''Segmentation'']\<rparr>,
     \<lparr>stage_id = ''validate'', label = ''VALIDATION'', stage_keywords = [''Validating'', ''Compliance'']\<rparr>,
     \<lparr>stage_id = ''uv'', label = ''UV UNWRAP'', stage_keywords = [''UVs'', ''Lightmap'']\<rparr>,
     \<lparr>stage_id = ''remesh'', label = ''REMESHING'', stage_keywords = [''Remeshing'', ''Quad'']\<rparr>,
     \<lparr>stage_id = ''gen'', label = ''GENERATIVE'', stage_keywords = [''Generating 3D'', ''Vision-to-3D'']\<rparr>,
     \<lparr>stage_id = ''export'', label = ''EXPORT'', stage_keywords = [''Export'']\<rparr>]"

text \<open>\<^verbatim>\<open>stage.keywords.some(k => msg.includes(k))\<close>\<close>

definition stage_matches :: "string \<Rightarrow> stage \<Rightarrow> bool" where
  "stage_matches msg stage = list_ex (\<lambda>k. str_includes msg k) (stage_keywords stage)"

text \<open>
  The inner loop \<^verbatim>\<open>STAGES.forEach((stage, idx) => ...)\<close> for one message, threading
  the running maximum \<^verbatim>\<open>maxIndex\<close>.
\<close>

definition scan_message :: "int \<Rightarrow> string \<Rightarrow> int" where
  "scan_message maxIndex msg =
     foldl (\<lambda>acc (idx, stage). if stage_matches msg stage then max acc (int idx) else acc)
       maxIndex (enumerate 0 STAGES)"

text \<open>
  The memoised value: \<open>- 1\<close> for no messages, \<^verbatim>\<open>STAGES.length\<close> when the last
  message contains the completion marker, else the outer loop over all messages
  starting from \<open>- 1\<close>.
\<close>

definition currentStageIndex :: "string list \<Rightarrow> int" where
  "currentStageIndex messages =
     (if length messages = 0 then - 1
      else let lastMsg = messages ! (length messages - 1) in
        if str_includes lastMsg ''Pipeline Complete'' then int (length STAGES)
        else foldl scan_message (- 1) messages)"

text \<open>
  The keyword maximum as the property below words it (not taken from the source): the
  largest index of a stage one of whose keywords occurs in some message, and \<open>- 1\<close>
  when there is none.
\<close>

definition keyword_maximum :: "string list \<Rightarrow> int" where
  "keyword_maximum messages =
     Max (set (- 1 # map int (filter (\<lambda>i. list_ex (\<lambda>m. stage_matches m (STAGES ! i)) messages)
                                  [0..<length STAGES])))"

section \<open>Web UI: the FloorPlanWorkspace component (scale calibration)\<close>

text \<open>
  JavaScript numbers are IEEE-754 doubles. The calibration code only combines them with
  \<^verbatim>\<open>-\<close>, \<^verbatim>\<open>+\<close>, \<^verbatim>\<open>*\<close>, \<^verbatim>\<open>/\<close>, \<^verbatim>\<open>Math.pow\<close> and \<^verbatim>\<open>Math.sqrt\<close> and never compares
  or branches on them, so the model takes the number type \<open>'n\<close> and these operations as
  a parameter. What is proved holds for every interpretation, the doubles with their
  infinities and NaN among them; \<open>num_lit\<close> gives the value of a numeric literal.
\<close>

record 'n arith =
  num_lit :: "string \<Rightarrow> 'n"
  num_sub :: "'n \<Rightarrow> 'n \<Rightarrow> 'n"
  num_add :: "'n \<Rightarrow> 'n \<Rightarrow> 'n"
  num_mul :: "'n \<Rightarrow> 'n \<Rightarrow> 'n"
  num_div :: "'n \<Rightarrow> 'n \<Rightarrow> 'n"
  Math_pow :: "'n \<Rightarrow> 'n \<Rightarrow> 'n"
  Math_sqrt :: "'n \<Rightarrow> 'n"

text \<open>A calibration point \<^verbatim>\<open>{ x: number, y: number }\<close>.\<close>

record 'n point =
  point_x :: 'n
  point_y :: 'n

text \<open>
  What \<open>handleImageClick\<close> reads from the mouse event: the pointer position, the
  bounding rectangle of the image element and the natural size of the image.
\<close>

record 'n click_event =
  clientX :: 'n
  clientY :: 'n
  rect_left :: 'n
  rect_top :: 'n
  rect_width :: 'n
  rect_height :: 'n
  naturalWidth :: 'n
  naturalHeight :: 'n

text \<open>
  The calibration cells of the component, each a \<^verbatim>\<open>useState\<close> cell; file, preview, wall
  height and the others play no part in calibration.
\<close>

record 'n workspace =
  isCalibrating :: bool
  calibrationPoints :: "'n point list"
  pixelsPerMeter :: 'n
  calibrationLength :: 'n

text \<open>
  A handler is a closure created by a render: the cells it reads are those of that
  render, whatever has been queued since. A setter queues an update of the pending
  state, which the next render makes the rendered one. So the component is two copies
  of the cells: \<open>rendered\<close>, what the handlers of the last render read, and \<open>pending\<close>,
  the state with all queued updates applied.
\<close>

record 'n component =
  rendered :: "'n workspace"
  pending :: "'n workspace"

text \<open>
  Initial state:
  \<^verbatim>\<open>useState(false)\<close>, \<^verbatim>\<open>useState([])\<close>, \<^verbatim>\<open>useState(50)\<close>, \<^verbatim>\<open>useState(1.0)\<close>.
\<close>

definition FloorPlanWorkspace :: "'n arith \<Rightarrow> 'n component" where
  "FloorPlanWorkspace ar =
     (let cells = \<lparr>isCalibrating = False, calibrationPoints = [],
                    pixelsPerMeter = num_lit ar ''50'', calibrationLength = num_lit ar ''1.0''\<rparr>
      in \<lparr>rendered = cells, pending = cells\<rparr>)"

text \<open>
  The clicked point in natural image coordinates:
  \<^verbatim>\<open>const x = e.clientX - rect.left; const y = e.clientY - rect.top;\<close>
  \<^verbatim>\<open>const scaleX = e.currentTarget.naturalWidth / rect.width;\<close>
  \<^verbatim>\<open>const scaleY = e.currentTarget.naturalHeight / rect.height;\<close>
  \<^verbatim>\<open>const point = { x: x * scaleX, y: y * scaleY };\<close>
\<close>

definition click_point :: "'n arith \<Rightarrow> 'n click_event \<Rightarrow> 'n point" where
  "click_point ar e =
     (let x = num_sub ar (clientX e) (rect_left e);
          y = num_sub ar (clientY e) (rect_top e);
          scaleX = num_div ar (naturalWidth e) (rect_width e);
          scaleY = num_div ar (naturalHeight e) (rect_height e)
      in \<lparr>point_x = num_mul ar x scaleX, point_y = num_mul ar y scaleY\<rparr>)"

text \<open>
  \<^verbatim>\<open>if (!isCalibrating) return;\<close> and the guard \<^verbatim>\<open>calibrationPoints.length < 2\<close> read
  the cells of the render that created the handler. The append is a functional update,
  \<^verbatim>\<open>setCalibrationPoints(prev => [...prev, point])\<close>: it extends the pending list.
\<close>

definition handleImageClick :: "'n arith \<Rightarrow> 'n click_event \<Rightarrow> 'n component \<Rightarrow> 'n component" where
  "handleImageClick ar e c =
     (if \<not> isCalibrating (rendered c) then c
      else let point = click_point ar e in
        if length (calibrationPoints (rendered c)) < 2
        then c\<lparr>pending := (pending c)\<lparr>calibrationPoints := calibrationPoints (pending c) @ [point]\<rparr>\<rparr>
        else c)"

text \<open>
  \<^verbatim>\<open>finishCalibration\<close>: the guard \<^verbatim>\<open>calibrationPoints.length === 2\<close>, the two points and
  \<^verbatim>\<open>calibrationLength\<close> are read from the render's cells; the division has no guard. The
  three setters queue plain values; the closing \<^verbatim>\<open>alert\<close> shows the value and changes
  no state.
\<close>

definition finishCalibration :: "'n arith \<Rightarrow> 'n component \<Rightarrow> 'n component" where
  "finishCalibration ar c =
     (if length (calibrationPoints (rendered c)) = 2 then
        let p1 = calibrationPoints (rendered c) ! 0;
            p2 = calibrationPoints (rendered c) ! 1;
            dist = Math_sqrt ar
                     (num_add ar
                        (Math_pow ar (num_sub ar (point_x p2) (point_x p1)) (num_lit ar ''2''))
                        (Math_pow ar (num_sub ar (point_y p2) (point_y p1)) (num_lit ar ''2'')));
            ppm = num_div ar dist (calibrationLength (rendered c))
        in c\<lparr>pending := (pending c)\<lparr>pixelsPerMeter := ppm, isCalibrating := False,
                                      calibrationPoints := []\<rparr>\<rparr>
      else c)"

text \<open>
  What happens to the component, as far as the calibration cells go:
  \<^item> \<open>Drop accepted\<close>: \<^verbatim>\<open>onDrop\<close>; with a file it ends in \<^verbatim>\<open>setCalibrationPoints([])\<close>,
    with none \<^verbatim>\<open>URL.createObjectURL(undefined)\<close> throws before that line;
  \<^item> \<open>StartCalibration\<close>: the CALIBRATE SCALE button,
    \<^verbatim>\<open>setIsCalibrating(true); setCalibrationPoints([]);\<close>
  \<^item> \<open>ImageClick e\<close>: a click on the preview image;
  \<^item> \<open>SetLength v\<close>: the length input, \<^verbatim>\<open>setCalibrationLength(parseFloat(e.target.value))\<close>;
  \<^item> \<open>Finish\<close>: the SET button; \<open>Cancel\<close>: the CANCEL button, \<^verbatim>\<open>setIsCalibrating(false)\<close>;
  \<^item> \<open>Render\<close>: React renders the component again; the queued state becomes the one the
    new handlers read. When it happens is React's choice, not the component's: events
    handled in one task are not separated by a render.
\<close>

datatype 'n event =
    Drop bool
  | StartCalibration
  | ImageClick "'n click_event"
  | SetLength 'n
  | Finish
  | Cancel
  | Render

fun step :: "'n arith \<Rightarrow> 'n component \<Rightarrow> 'n event \<Rightarrow> 'n component" where
  "step ar c (Drop accepted) =
     (if accepted then c\<lparr>pending := (pending c)\<lparr>calibrationPoints := []\<rparr>\<rparr> else c)"
| "step ar c StartCalibration =
     c\<lparr>pending := (pending c)\<lparr>isCalibrating := True, calibrationPoints := []\<rparr>\<rparr>"
| "step ar c (ImageClick e) = handleImageClick ar e c"
| "step ar c (SetLength v) = c\<lparr>pending := (pending c)\<lparr>calibrationLength := v\<rparr>\<rparr>"
| "step ar c Finish = finishCalibration ar c"
| "step ar c Cancel = c\<lparr>pending := (pending c)\<lparr>isCalibrating := False\<rparr>\<rparr>"
| "step ar c Render = c\<lparr>rendered := pending c\<rparr>"

definition run :: "'n arith \<Rightarrow> 'n component \<Rightarrow> 'n event list \<Rightarrow> 'n component" where
  "run ar c evs = foldl (step ar) c evs"

text \<open>
  One interpretation of the arithmetic, by real numbers (the exponent of \<open>Math_pow\<close>
  read as a natural number), and a click on an image shown at its natural size of
  100 by 100 pixels. They serve to run the handlers on concrete input.
\<close>

definition real_arith :: "real arith" where
  "real_arith =
     \<lparr>num_lit = (\<lambda>s. if s = ''2'' then 2 else if s = ''50'' then 50 else 1),
      num_sub = (-), num_add = (+), num_mul = (*), num_div = (/),
      Math_pow = (\<lambda>a b. a ^ nat \<lfloor>b\<rfloor>), Math_sqrt = sqrt\<rparr>"

definition click_at :: "real \<Rightarrow> real \<Rightarrow> real click_event" where
  "click_at cx cy = \<lparr>clientX = cx, clientY = cy, rect_left = 0, rect_top = 0,
     rect_width = 100, rect_height = 100, naturalWidth = 100, naturalHeight = 100\<rparr>"

section \<open>The validation and auto-fix engine\<close>

text \<open>
  The sources hold no code of the engine: its validator and fixer modules are only named
  by the documentation. Every definition of this section is therefore modelled from the
  specification, section by section, and each says which part it stands for. The scene
  is the type parameter \<open>'s\<close>: the engine reaches it only through rule predicates and
  fix actions.
\<close>

subsection \<open>Data model\<close>

text \<open>Modelled from the spec: the category enumeration of a Rule (data model).\<close>

datatype category = Geometry | Transform | UV | Naming | Material

text \<open>Modelled from the spec: the severities of rules and violations, most severe first.\<close>

datatype severity = Error | Warning | Info

text \<open>
  Modelled from the spec: the fix categories, which the spec leaves as an unnamed enum;
  one for each category-specific mutator of the Scene Access Interface.
\<close>

datatype fix_category =
  DeleteHistory | FreezeTransform | WeldVertices | TriangulateNgons | UnifyNormals | RepackUV
  | RenormalizeName

text \<open>
  Modelled from the spec: Violation
  \<^verbatim>\<open>{rule_id, target_id, severity, message, fixable, fix_category: optional}\<close>.
\<close>

record violation =
  rule_id :: string
  target_id :: string
  severity :: severity
  message :: string
  fixable :: bool
  fix_category :: "fix_category option"

text \<open>
  Modelled from the spec: Rule \<^verbatim>\<open>{id, category, severity, enabled, predicate}\<close>. The
  predicate returns \<open>None\<close> where the implementation would raise.
\<close>

record 's rule =
  ident :: string
  rule_category :: category
  rule_severity :: severity
  enabled :: bool
  predicate :: "'s \<Rightarrow> violation list option"

text \<open>Modelled from the spec: the five fix phases, in their listed order (Fixer Engine).\<close>

datatype phase = Sanitize | Transform_phase | Topology | Surface_attributes | Naming_Material

text \<open>Modelled from the spec: the order in which a fix pass runs the phases (Fixer Engine).\<close>

definition phases :: "phase list" where
  "phases = [Sanitize, Transform_phase, Topology, Surface_attributes, Naming_Material]"

text \<open>Modelled from the spec: FixOutcome \<^verbatim>\<open>{Applied, NoOpAlreadyFixed, Failed(reason)}\<close>.\<close>

datatype fix_outcome = Applied | NoOpAlreadyFixed | Failed string

text \<open>
  Modelled from the spec: FixAction \<^verbatim>\<open>{fix_category, phase, apply}\<close>. The scene is
  mutated through the access interface, so \<open>apply_fix\<close> returns the scene it leaves.
\<close>

record 's fix_action =
  action_category :: fix_category
  phase :: phase
  apply_fix :: "'s \<Rightarrow> violation \<Rightarrow> 's \<times> fix_outcome"

text \<open>
  Modelled from the spec: ValidationReport
  \<^verbatim>\<open>{violations, severity_counts, pass, timestamp, iteration}\<close>.
\<close>

record validation_report =
  violations :: "violation list"
  severity_counts :: "(severity \<times> nat) list"
  pass :: bool
  timestamp :: nat
  iteration :: nat

text \<open>Modelled from the spec: the terminal outcomes of a session (Convergence Controller).\<close>

datatype session_outcome = Clean | Stalled | MaxIterationsExceeded

text \<open>
  Modelled from the spec: FixSession, the ephemeral state of a session: the iteration
  counter, the reports produced so far, the recorded fix outcomes of every pass, and the
  termination reason (none while the session runs).
\<close>

record fix_session =
  iteration_counter :: nat
  reports :: "validation_report list"
  fix_outcomes :: "(violation \<times> fix_outcome) list list"
  termination_reason :: "session_outcome option"

subsection \<open>Validator Engine and Report Aggregator\<close>

text \<open>Modelled from the spec: \<^verbatim>\<open>enabledRules()\<close> of the Rule Registry.\<close>

definition enabledRules :: "'s rule list \<Rightarrow> 's rule list" where
  "enabledRules ruleSet = filter enabled ruleSet"

text \<open>
  Modelled from the spec: the synthetic \<open>Info\<close> violation "rule execution failed" naming
  the rule whose predicate faulted. The spec gives it no target; the empty handle is used.
\<close>

definition execution_failed :: "'s rule \<Rightarrow> violation" where
  "execution_failed r =
     \<lparr>rule_id = ident r, target_id = [], severity = Info,
      message = ''rule execution failed: '' @ ident r, fixable = False, fix_category = None\<rparr>"

text \<open>Modelled from the spec: one predicate run in isolation (Validator Engine).\<close>

definition run_rule :: "'s \<Rightarrow> 's rule \<Rightarrow> violation list" where
  "run_rule sceneView r =
     (case predicate r sceneView of None \<Rightarrow> [execution_failed r] | Some vs \<Rightarrow> vs)"

text \<open>
  Modelled from the spec: the pair \<open>(rule_id, target_id)\<close> that identifies a violation for
  deduplication and for the progress signature.
\<close>

definition violation_key :: "violation \<Rightarrow> string \<times> string" where
  "violation_key v = (rule_id v, target_id v)"

text \<open>
  Modelled from the spec: deduplication by \<open>(rule_id, target_id)\<close> (Validator Engine);
  the first violation with a key is kept, \<open>seen\<close> holds the keys met so far.
\<close>

fun dedupe :: "(string \<times> string) list \<Rightarrow> violation list \<Rightarrow> violation list" where
  "dedupe seen [] = []"
| "dedupe seen (v # vs) =
     (if violation_key v \<in> set seen then dedupe seen vs
      else v # dedupe (violation_key v # seen) vs)"

text \<open>
  Modelled from the spec: the place of a severity in the Report Aggregator's ordering of
  violations.
\<close>

definition severity_rank :: "severity \<Rightarrow> nat" where
  "severity_rank sv = (case sv of Error \<Rightarrow> 0 | Warning \<Rightarrow> 1 | Info \<Rightarrow> 2)"

text \<open>Modelled from the spec: the place of a category in that ordering, as the spec lists them.\<close>

definition category_rank :: "category \<Rightarrow> nat" where
  "category_rank c =
     (case c of Geometry \<Rightarrow> 0 | Transform \<Rightarrow> 1 | UV \<Rightarrow> 2 | Naming \<Rightarrow> 3 | Material \<Rightarrow> 4)"

text \<open>
  Modelled from the spec: the category a violation is ordered by, that of the rule it
  names; a violation that names no loaded rule comes after all categories.
\<close>

definition category_of :: "'s rule list \<Rightarrow> string \<Rightarrow> nat" where
  "category_of ruleSet rid =
     (case find (\<lambda>r. ident r = rid) ruleSet of
        None \<Rightarrow> 5
      | Some r \<Rightarrow> category_rank (rule_category r))"

text \<open>
  Modelled from the spec: the key of the stable ordering of the Report Aggregator: by
  severity, then category, then rule id, then target id.
\<close>

definition order_key :: "'s rule list \<Rightarrow> violation \<Rightarrow> nat \<times> nat \<times> string \<times> string" where
  "order_key ruleSet v =
     (severity_rank (severity v), category_of ruleSet (rule_id v), rule_id v, target_id v)"

text \<open>Modelled from the spec: one entry of \<open>severity_counts\<close> (Report Aggregator).\<close>

definition count_severity :: "violation list \<Rightarrow> severity \<Rightarrow> nat" where
  "count_severity vs sv = length (filter (\<lambda>v. severity v = sv) vs)"

text \<open>
  Modelled from the spec: the Report Aggregator's roll-up: the violations in the stable
  order, \<open>severity_counts\<close>, and \<open>pass\<close>, true iff no \<open>Error\<close>-severity violation remains
  (the strict default: no severity is downgraded).
\<close>

definition aggregate :: "'s rule list \<Rightarrow> nat \<Rightarrow> nat \<Rightarrow> violation list \<Rightarrow> validation_report" where
  "aggregate ruleSet now i vs =
     \<lparr>violations = sort_key (order_key ruleSet) vs,
      severity_counts = map (\<lambda>sv. (sv, count_severity vs sv)) [Error, Warning, Info],
      pass = (count_severity vs Error = 0),
      timestamp = now,
      iteration = i\<rparr>"

text \<open>
  Modelled from the spec: \<^verbatim>\<open>validate(sceneView, ruleSet) -> ValidationReport\<close>: every
  enabled rule is run, the violations are merged, deduplicated and aggregated. The time
  of the call and the iteration it belongs to are arguments.
\<close>

definition validate :: "nat \<Rightarrow> nat \<Rightarrow> 's \<Rightarrow> 's rule list \<Rightarrow> validation_report" where
  "validate now i sceneView ruleSet =
     aggregate ruleSet now i (dedupe [] (concat (map (run_rule sceneView) (enabledRules ruleSet))))"

subsection \<open>Fixer Engine\<close>

text \<open>
  Modelled from the spec: the action mapped from a violation, by its fix category; a
  violation without a category or without a registered action gets no fix.
\<close>

definition action_for :: "'s fix_action list \<Rightarrow> violation \<Rightarrow> 's fix_action option" where
  "action_for actions v =
     (case fix_category v of
        None \<Rightarrow> None
      | Some c \<Rightarrow> find (\<lambda>a. action_category a = c) actions)"

text \<open>
  Modelled from the spec: one phase of a fix pass. Every violation whose action belongs
  to the phase is applied, in the order of the report; each outcome is recorded, and a
  \<open>Failed\<close> outcome does not abort the phase.
\<close>

fun fix_phase ::
  "'s fix_action list \<Rightarrow> phase \<Rightarrow> 's \<times> (violation \<times> fix_outcome) list \<Rightarrow> violation list
     \<Rightarrow> 's \<times> (violation \<times> fix_outcome) list" where
  "fix_phase actions p (s, outs) [] = (s, outs)"
| "fix_phase actions p (s, outs) (v # vs) =
     (case action_for actions v of
        None \<Rightarrow> fix_phase actions p (s, outs) vs
      | Some a \<Rightarrow>
          if phase a = p
          then (case apply_fix a s v of (s', out) \<Rightarrow> fix_phase actions p (s', outs @ [(v, out)]) vs)
          else fix_phase actions p (s, outs) vs)"

text \<open>
  Modelled from the spec: \<^verbatim>\<open>fix(sceneView, violations) -> FixOutcome[]\<close>: all phases
  run once, in the listed order; the engine does not validate.
\<close>

definition fix_pass ::
  "'s fix_action list \<Rightarrow> 's \<Rightarrow> violation list \<Rightarrow> 's \<times> (violation \<times> fix_outcome) list" where
  "fix_pass actions sceneView vs = foldl (\<lambda>st p. fix_phase actions p st vs) (sceneView, []) phases"

subsection \<open>Convergence Controller\<close>

text \<open>
  Modelled from the spec: the progress signature, the multiset of \<open>(rule_id, target_id)\<close>
  pairs still violating.
\<close>

definition progress_signature :: "validation_report \<Rightarrow> (string \<times> string) multiset" where
  "progress_signature r = mset (map violation_key (violations r))"

text \<open>
  Modelled from the spec: steps 3 and 4 of the controller's algorithm. The Fixer Engine
  runs against the fixable violations of the previous report, then the Validator Engine
  runs again; the session counts the new report and keeps it and the outcomes of the
  pass. The iteration counter counts validation reports, as in the spec's example
  scenario, where the second validation belongs to iteration 2.
\<close>

definition fix_and_revalidate ::
  "'s fix_action list \<Rightarrow> 's rule list \<Rightarrow> (nat \<Rightarrow> nat) \<Rightarrow> 's \<Rightarrow> validation_report \<Rightarrow> fix_session
     \<Rightarrow> 's \<times> validation_report \<times> fix_session" where
  "fix_and_revalidate actions ruleSet clock s prev session =
     (case fix_pass actions s (filter fixable (violations prev)) of (s', outs) \<Rightarrow>
        let i = iteration_counter session + 1;
            r = validate (clock i) i s' ruleSet
        in (s', r, session\<lparr>iteration_counter := i, reports := reports session @ [r],
                            fix_outcomes := fix_outcomes session @ [outs]\<rparr>))"

text \<open>
  Modelled from the spec: steps 3 to 8 of the algorithm, in the order the spec lists
  them: fix and validate again (3, 4); an identical signature ends the session as
  \<open>Stalled\<close> (5); a passing report ends it as \<open>Clean\<close> (6); an iteration count that has
  reached the bound ends it as \<open>MaxIterationsExceeded\<close> (7); otherwise the loop goes
  round again (8). The loop is bounded by the distance of the counter to the bound.
\<close>

function fix_loop ::
  "nat \<Rightarrow> 's fix_action list \<Rightarrow> 's rule list \<Rightarrow> (nat \<Rightarrow> nat) \<Rightarrow> 's \<Rightarrow> validation_report \<Rightarrow> fix_session
     \<Rightarrow> 's \<times> fix_session" where
  "fix_loop maxIterations actions ruleSet clock s prev session =
     (case fix_and_revalidate actions ruleSet clock s prev session of (s', r, session') \<Rightarrow>
        if progress_signature r = progress_signature prev
        then (s', session'\<lparr>termination_reason := Some Stalled\<rparr>)
        else if pass r
        then (s', session'\<lparr>termination_reason := Some Clean\<rparr>)
        else if maxIterations \<le> iteration_counter session'
        then (s', session'\<lparr>termination_reason := Some MaxIterationsExceeded\<rparr>)
        else fix_loop maxIterations actions ruleSet clock s' r session')"
  by pat_completeness auto
termination
  by (relation "measure (\<lambda>(maxIterations, actions, ruleSet, clock, s, prev, session).
        maxIterations - iteration_counter session)")
     (auto simp: fix_and_revalidate_def Let_def split: prod.splits)

text \<open>
  Modelled from the spec: \<^verbatim>\<open>autoFix(scene, maxIterations) -> (Report, SessionOutcome)\<close>,
  steps 1 and 2 of the algorithm followed by the loop. The result is the scene as the
  session leaves it and the session, which holds the reports and the outcome.
\<close>

definition autoFix ::
  "nat \<Rightarrow> 's fix_action list \<Rightarrow> 's rule list \<Rightarrow> (nat \<Rightarrow> nat) \<Rightarrow> 's \<Rightarrow> 's \<times> fix_session" where
  "autoFix maxIterations actions ruleSet clock s =
     (let r0 = validate (clock 1) 1 s ruleSet;
          session = \<lparr>iteration_counter = 1, reports = [r0], fix_outcomes = [],
                     termination_reason = None\<rparr>
      in if pass r0 then (s, session\<lparr>termination_reason := Some Clean\<rparr>)
         else fix_loop maxIterations actions ruleSet clock s r0 session)"

text \<open>Modelled from the spec: the report a finished session carries, the last one produced.\<close>

definition final_report :: "fix_session \<Rightarrow> validation_report" where
  "final_report session = last (reports session)"

text \<open>
  What a finished session satisfies; the loop is proved to establish it. The number of
  validate calls of a session is the number of its reports, the number of fix passes
  the number of its recorded outcome lists.
\<close>

definition session_ok :: "nat \<Rightarrow> (nat \<Rightarrow> nat) \<Rightarrow> 's rule list \<Rightarrow> 's \<Rightarrow> fix_session \<Rightarrow> bool" where
  "session_ok M clock ruleSet s session \<longleftrightarrow>
     iteration_counter session = length (reports session) \<and>
     length (fix_outcomes session) + 1 = length (reports session) \<and>
     termination_reason session \<in> {Some Clean, Some Stalled, Some MaxIterationsExceeded} \<and>
     last (reports session) =
       validate (clock (length (reports session))) (length (reports session)) s ruleSet \<and>
     (\<forall>i. 0 < i \<and> i < length (reports session) \<longrightarrow>
        (progress_signature (reports session ! i) = progress_signature (reports session ! (i - 1))
           \<longleftrightarrow> Suc i = length (reports session) \<and> termination_reason session = Some Stalled)) \<and>
     (termination_reason session = Some Stalled \<longrightarrow> 2 \<le> length (reports session)) \<and>
     (termination_reason session = Some Clean \<longrightarrow> pass (last (reports session))) \<and>
     (termination_reason session = Some MaxIterationsExceeded \<longrightarrow>
        M \<le> length (reports session) \<and> \<not> pass (last (reports session)))"

subsection \<open>Scenes to run the engine on\<close>

text \<open>
  A scene with one mesh and two defects, held as a pair of flags. Rule \<open>A\<close> reports the
  first flag, rule \<open>B\<close> the second, both as fixable errors. \<open>fix_A\<close> clears the first
  defect and thereby causes the second; \<open>fix_B\<close> clears the second and causes the first:
  a fix cycle. \<open>fix_stuck\<close> is a fix for \<open>A\<close> that always fails and leaves the scene.
  \<open>tick\<close> is a clock that shows the iteration number.
\<close>

definition tick :: "nat \<Rightarrow> nat" where
  "tick i = i"

definition flag_violation :: "string \<Rightarrow> fix_category \<Rightarrow> violation" where
  "flag_violation rid c = \<lparr>rule_id = rid, target_id = ''mesh1'', severity = Error,
     message = ''violated'', fixable = True, fix_category = Some c\<rparr>"

definition rule_A :: "(bool \<times> bool) rule" where
  "rule_A = \<lparr>ident = ''A'', rule_category = Geometry, rule_severity = Error, enabled = True,
     predicate = (\<lambda>s. Some (if fst s then [flag_violation ''A'' WeldVertices] else []))\<rparr>"

definition rule_B :: "(bool \<times> bool) rule" where
  "rule_B = \<lparr>ident = ''B'', rule_category = Geometry, rule_severity = Error, enabled = True,
     predicate = (\<lambda>s. Some (if snd s then [flag_violation ''B'' TriangulateNgons] else []))\<rparr>"

definition fix_A :: "(bool \<times> bool) fix_action" where
  "fix_A = \<lparr>action_category = WeldVertices, phase = Topology,
     apply_fix = (\<lambda>s v. if fst s then ((False, True), Applied) else (s, NoOpAlreadyFixed))\<rparr>"

definition fix_B :: "(bool \<times> bool) fix_action" where
  "fix_B = \<lparr>action_category = TriangulateNgons, phase = Topology,
     apply_fix = (\<lambda>s v. if snd s then ((True, False), Applied) else (s, NoOpAlreadyFixed))\<rparr>"

definition fix_stuck :: "(bool \<times> bool) fix_action" where
  "fix_stuck = \<lparr>action_category = WeldVertices, phase = Topology,
     apply_fix = (\<lambda>s v. (s, Failed ''locked''))\<rparr>"

section \<open>Properties of the Home component\<close>

text \<open>
  C8. While the login page is shown (flag false), submitting sets the flag exactly when
  the submitted key is the hardcoded string \<open>QYNTARA-X-777\<close>; any other key leaves the
  whole component state as it was. Every request built by \<open>executePipeline\<close>, with or
  without a file, carries that same string under the header \<open>x-qyntara-key\<close>.
\<close>

theorem login_key_exact:
  "(Home st = LoginView \<longrightarrow>
      (isAuthenticated (onLogin k st) \<longleftrightarrow> k = ''QYNTARA-X-777'') \<and>
      (isAuthenticated (authenticate page st) \<longleftrightarrow> key page = ''QYNTARA-X-777'')) \<and>
   (k \<noteq> ''QYNTARA-X-777'' \<longrightarrow> onLogin k st = st) \<and>
   (key page \<noteq> ''QYNTARA-X-777'' \<longrightarrow> authenticate page st = st) \<and>
   map_of (headers (executePipeline_request file)) ''x-qyntara-key'' = Some ''QYNTARA-X-777''"
  by (simp add: Home_def onLogin_def authenticate_def executePipeline_request_def)

theorem login_key_exact_witness:
  "Home home_initial = LoginView \<and>
   isAuthenticated (authenticate (setKey ''QYNTARA-X-777'' LoginPage) home_initial) \<and>
   ''QYNTARA-X-776'' \<noteq> ''QYNTARA-X-777'' \<and>
   key (setKey ''qyntara-x-777'' LoginPage) \<noteq> ''QYNTARA-X-777'' \<and>
   onLogin ''QYNTARA-X-776'' home_initial = home_initial \<and>
   authenticate (setKey ''qyntara-x-777'' LoginPage) home_initial = home_initial \<and>
   \<not> isAuthenticated (authenticate LoginPage home_initial) \<and>
   map_of (headers (executePipeline_request True)) ''x-qyntara-key'' = Some ''QYNTARA-X-777'' \<and>
   map_of (headers (executePipeline_request False)) ''x-qyntara-key'' = Some ''QYNTARA-X-777''"
proof -
  have login: "Home home_initial = LoginView"
    by (simp add: Home_def home_initial_def)
  have other: "''QYNTARA-X-776'' \<noteq> ''QYNTARA-X-777''"
    by simp
  have lower: "key (setKey ''qyntara-x-777'' LoginPage) \<noteq> ''QYNTARA-X-777''"
    by (simp add: setKey_def)
  have good: "key (setKey ''QYNTARA-X-777'' LoginPage) = ''QYNTARA-X-777''"
    by (simp add: setKey_def)
  have empty: "key LoginPage \<noteq> ''QYNTARA-X-777''"
    by (simp add: LoginPage_def)
  note a = login_key_exact
    [of home_initial "''QYNTARA-X-777''" "setKey ''QYNTARA-X-777'' LoginPage" True]
  note b = login_key_exact
    [of home_initial "''QYNTARA-X-776''" "setKey ''qyntara-x-777'' LoginPage" False]
  note c = login_key_exact [of home_initial "''QYNTARA-X-776''" LoginPage False]
  from login other lower good empty a b c show ?thesis
    by simp
qed

section \<open>Properties of PipelineProgress\<close>

subsection \<open>Substring search and the running maximum\<close>

lemma starts_with_iff: "starts_with s k \<longleftrightarrow> (\<exists>q. s = k @ q)"
  by (induction s k rule: starts_with.induct) auto

lemma str_includes_iff: "str_includes s k \<longleftrightarrow> (\<exists>p q. s = p @ k @ q)"
proof (induction s)
  case Nil
  then show ?case by (simp add: starts_with_iff)
next
  case (Cons c cs)
  show ?case
  proof
    assume "str_includes (c # cs) k"
    then consider "starts_with (c # cs) k" | "str_includes cs k" by auto
    then show "\<exists>p q. c # cs = p @ k @ q"
    proof cases
      case 1
      then obtain q where "c # cs = k @ q" by (auto simp: starts_with_iff)
      then have "c # cs = [] @ k @ q" by simp
      then show ?thesis by blast
    next
      case 2
      then obtain p q where "cs = p @ k @ q" using Cons.IH by auto
      then have "c # cs = (c # p) @ k @ q" by simp
      then show ?thesis by blast
    qed
  next
    assume "\<exists>p q. c # cs = p @ k @ q"
    then obtain p q where pq: "c # cs = p @ k @ q" by blast
    show "str_includes (c # cs) k"
    proof (cases p)
      case Nil
      with pq have "starts_with (c # cs) k" by (auto simp: starts_with_iff)
      then show ?thesis by simp
    next
      case (Cons a p')
      with pq have "cs = p' @ k @ q" by simp
      then have "str_includes cs k" using Cons.IH by blast
      then show ?thesis by simp
    qed
  qed
qed

lemma Max_insert_max:
  "finite S \<Longrightarrow> Max (insert (max a b) S) = Max (insert (a::int) (insert b S))"
  by (cases "S = {}") (simp_all add: max.assoc)

lemma foldl_max_image:
  "foldl (\<lambda>a x. if p x then max a (f x) else a) (acc::int) xs = Max (insert acc (f ` {x \<in> set xs. p x}))"
proof (induction xs arbitrary: acc)
  case Nil
  then show ?case by simp
next
  case (Cons x xs)
  let ?g = "\<lambda>a x. if p x then max a (f x) else a"
  let ?S = "f ` {y \<in> set xs. p y}"
  have fin: "finite ?S" by simp
  show ?case
  proof (cases "p x")
    case True
    then have eq: "f ` {y \<in> set (x # xs). p y} = insert (f x) ?S" by auto
    have "foldl ?g acc (x # xs) = foldl ?g (max acc (f x)) xs"
      using True by simp
    also have "\<dots> = Max (insert (max acc (f x)) ?S)"
      by (rule Cons.IH)
    also have "\<dots> = Max (insert acc (insert (f x) ?S))"
      using fin by (rule Max_insert_max)
    finally show ?thesis by (simp only: eq)
  next
    case False
    then have eq: "f ` {y \<in> set (x # xs). p y} = ?S" by auto
    have "foldl ?g acc (x # xs) = foldl ?g acc xs"
      using False by simp
    also have "\<dots> = Max (insert acc ?S)"
      by (rule Cons.IH)
    finally show ?thesis by (simp only: eq)
  qed
qed

lemma scan_message_Max:
  "scan_message acc msg =
     Max (insert acc (int ` {i. i < length STAGES \<and> stage_matches msg (STAGES ! i)}))"
proof -
  have "(\<lambda>x. int (fst x)) ` {x \<in> set (enumerate 0 STAGES). stage_matches msg (snd x)}
      = int ` {i. i < length STAGES \<and> stage_matches msg (STAGES ! i)}"
    by (force simp: in_set_enumerate_eq image_iff)
  moreover have "scan_message acc msg =
      foldl (\<lambda>a x. if stage_matches msg (snd x) then max a (int (fst x)) else a) acc (enumerate 0 STAGES)"
    unfolding scan_message_def by (simp add: case_prod_unfold)
  ultimately show ?thesis
    by (simp only: foldl_max_image)
qed

lemma Max_insert_Max:
  assumes A: "finite A" and B: "finite B"
  shows "Max (insert (Max (insert a A)) B) = Max (insert (a::int) (A \<union> B))"
proof (cases "B = {}")
  case True
  then show ?thesis by simp
next
  case False
  have "Max (insert a (A \<union> B)) = Max (insert a A \<union> B)"
    by simp
  also have "\<dots> = max (Max (insert a A)) (Max B)"
    using A B False by (intro Max_Un) auto
  also have "\<dots> = Max (insert (Max (insert a A)) B)"
    using B False by (rule Max_insert [symmetric])
  finally show ?thesis by simp
qed

lemma foldl_scan_message_Max:
  "foldl scan_message acc messages =
     Max (insert acc (int ` {i. i < length STAGES \<and> (\<exists>m\<in>set messages. stage_matches m (STAGES ! i))}))"
proof (induction messages arbitrary: acc)
  case Nil
  then show ?case by simp
next
  case (Cons m ms)
  let ?A = "int ` {i. i < length STAGES \<and> stage_matches m (STAGES ! i)}"
  let ?B = "int ` {i. i < length STAGES \<and> (\<exists>m\<in>set ms. stage_matches m (STAGES ! i))}"
  have eq: "int ` {i. i < length STAGES \<and> (\<exists>m'\<in>set (m # ms). stage_matches m' (STAGES ! i))} = ?A \<union> ?B"
    by auto
  have "foldl scan_message acc (m # ms) = foldl scan_message (scan_message acc m) ms"
    by simp
  also have "\<dots> = Max (insert (scan_message acc m) ?B)"
    by (rule Cons.IH)
  also have "\<dots> = Max (insert (Max (insert acc ?A)) ?B)"
    by (simp only: scan_message_Max)
  also have "\<dots> = Max (insert acc (?A \<union> ?B))"
    by (rule Max_insert_Max) simp_all
  finally show ?case by (simp only: eq)
qed


lemma keyword_maximum_fold: "foldl scan_message (- 1) messages = keyword_maximum messages"
proof -
  have "insert (- 1) (int ` {i. i < length STAGES \<and> (\<exists>m\<in>set messages. stage_matches m (STAGES ! i))})
      = set (- 1 # map int (filter (\<lambda>i. list_ex (\<lambda>m. stage_matches m (STAGES ! i)) messages)
                                  [0..<length STAGES]))"
    by (auto simp: list_ex_iff)
  then show ?thesis
    unfolding keyword_maximum_def by (simp only: foldl_scan_message_Max)
qed

lemma keyword_maximum_append_free:
  assumes "\<not> list_ex (stage_matches m) STAGES"
  shows "keyword_maximum (messages @ [m]) = keyword_maximum messages"
proof -
  have "\<And>i. i < length STAGES \<Longrightarrow> \<not> stage_matches m (STAGES ! i)"
    using assms by (auto simp: list_ex_iff)
  then have "filter (\<lambda>i. list_ex (\<lambda>m. stage_matches m (STAGES ! i)) (messages @ [m])) [0..<length STAGES]
      = filter (\<lambda>i. list_ex (\<lambda>m. stage_matches m (STAGES ! i)) messages) [0..<length STAGES]"
    by (intro filter_cong) (auto simp: list_ex_iff)
  then show ?thesis
    unfolding keyword_maximum_def by (simp only:)
qed

lemma keyword_maximum_bounds: "- 1 \<le> keyword_maximum messages \<and> keyword_maximum messages < int (length STAGES)"
  unfolding keyword_maximum_def by (subst Max_less_iff) auto

subsection \<open>The stage index\<close>

text \<open>
  C9 (amended). For every list of log messages, \<open>currentStageIndex\<close> is \<open>STAGES.length\<close>
  when the list is not empty and its last message contains \<open>Pipeline Complete\<close>;
  otherwise it is the keyword maximum, which is \<open>- 1\<close> for the empty list and for
  messages in which no stage keyword occurs. The index
  is not monotone: after a last message with the marker, appending a message that
  contains neither a stage keyword nor the marker lowers the index to the keyword
  maximum of the earlier messages, which is below \<open>STAGES.length\<close>.
\<close>

theorem currentStageIndex_char:
  "currentStageIndex messages =
     (if messages \<noteq> [] \<and> str_includes (last messages) ''Pipeline Complete''
      then int (length STAGES) else keyword_maximum messages) \<and>
   keyword_maximum [] = - 1 \<and>
   (list_all (\<lambda>m. \<not> list_ex (stage_matches m) STAGES) messages \<longrightarrow>
      keyword_maximum messages = - 1) \<and>
   (messages \<noteq> [] \<and> str_includes (last messages) ''Pipeline Complete'' \<and>
    \<not> str_includes m ''Pipeline Complete'' \<and> \<not> list_ex (stage_matches m) STAGES \<longrightarrow>
      currentStageIndex (messages @ [m]) = keyword_maximum messages \<and>
      currentStageIndex (messages @ [m]) < currentStageIndex messages)"
proof -
  have char: "currentStageIndex ms =
     (if ms \<noteq> [] \<and> str_includes (last ms) ''Pipeline Complete''
      then int (length STAGES) else keyword_maximum ms)" for ms
  proof (cases "ms = []")
    case True
    then show ?thesis
      by (simp add: currentStageIndex_def keyword_maximum_fold [symmetric])
  next
    case False
    then have "ms ! (length ms - 1) = last ms"
      by (simp add: last_conv_nth)
    with False show ?thesis
      by (simp add: currentStageIndex_def Let_def keyword_maximum_fold)
  qed
  have empty: "keyword_maximum [] = - 1"
    by (simp add: keyword_maximum_fold [symmetric])
  have drop: "currentStageIndex (messages @ [m]) = keyword_maximum messages \<and>
      currentStageIndex (messages @ [m]) < currentStageIndex messages"
    if "messages \<noteq> []" "str_includes (last messages) ''Pipeline Complete''"
       "\<not> str_includes m ''Pipeline Complete''" "\<not> list_ex (stage_matches m) STAGES"
  proof -
    have "currentStageIndex (messages @ [m]) = keyword_maximum (messages @ [m])"
      using that(3) by (simp add: char)
    then have a: "currentStageIndex (messages @ [m]) = keyword_maximum messages"
      by (simp only: keyword_maximum_append_free [OF that(4)])
    have "currentStageIndex messages = int (length STAGES)"
      using that(1,2) by (simp add: char)
    with a keyword_maximum_bounds [of messages] show ?thesis by simp
  qed
  have free: "keyword_maximum messages = - 1"
    if "list_all (\<lambda>m. \<not> list_ex (stage_matches m) STAGES) messages"
  proof -
    have "\<not> stage_matches m (STAGES ! i)" if "m \<in> set messages" "i < length STAGES" for m i
      using that \<open>list_all _ messages\<close> by (auto simp: list_all_iff list_ex_iff)
    then have "filter (\<lambda>i. list_ex (\<lambda>m. stage_matches m (STAGES ! i)) messages) [0..<length STAGES] = []"
      by (auto simp: filter_empty_conv list_ex_iff)
    then show ?thesis
      unfolding keyword_maximum_def by simp
  qed
  from char [of messages] empty free drop show ?thesis by blast
qed

theorem currentStageIndex_char_witness:
  "[''Export ready'', ''Pipeline Complete''] \<noteq> [] \<and>
   str_includes (last [''Export ready'', ''Pipeline Complete'']) ''Pipeline Complete'' \<and>
   \<not> str_includes ''[SYSTEM] Neural Link DISCONNECTED.'' ''Pipeline Complete'' \<and>
   \<not> list_ex (stage_matches ''[SYSTEM] Neural Link DISCONNECTED.'') STAGES \<and>
   list_all (\<lambda>m. \<not> list_ex (stage_matches m) STAGES) [''[SYSTEM] Neural Link DISCONNECTED.''] \<and>
   currentStageIndex [''[SYSTEM] Neural Link DISCONNECTED.''] = - 1 \<and>
   currentStageIndex [''Export ready'', ''Pipeline Complete''] = 6 \<and>
   currentStageIndex
     ([''Export ready'', ''Pipeline Complete''] @ [''[SYSTEM] Neural Link DISCONNECTED.'']) = 5"
proof -
  let ?ms = "[''Export ready'', ''Pipeline Complete'']"
  let ?m = "''[SYSTEM] Neural Link DISCONNECTED.''"
  have h1: "?ms \<noteq> []" by simp
  have h2: "str_includes (last ?ms) ''Pipeline Complete''" by code_simp
  have h3: "\<not> str_includes ?m ''Pipeline Complete''" by code_simp
  have h4: "\<not> list_ex (stage_matches ?m) STAGES" by code_simp
  have k: "keyword_maximum ?ms = 5" by code_simp
  have n: "int (length STAGES) = 6" by code_simp
  have h5: "list_all (\<lambda>m. \<not> list_ex (stage_matches m) STAGES) [?m]" by code_simp
  have h6: "\<not> ([?m] \<noteq> [] \<and> str_includes (last [?m]) ''Pipeline Complete'')" by code_simp
  from currentStageIndex_char [of ?ms ?m] currentStageIndex_char [of "[?m]" ?m]
    h1 h2 h3 h4 h5 h6 k n show ?thesis
    by simp
qed

text \<open>
  The sentence about appending fails when the appended message, free of stage keywords,
  itself contains the marker: \<open>Pipeline Complete\<close> matches no stage, yet after appending
  it the index stays at \<open>STAGES.length = 6\<close> and is not the keyword maximum \<open>5\<close>.
\<close>

theorem currentStageIndex_marker_counterexample:
  "\<not> list_ex (stage_matches ''Pipeline Complete'') STAGES \<and>
   currentStageIndex [''Export ready'', ''Pipeline Complete''] = 6 \<and>
   keyword_maximum [''Export ready'', ''Pipeline Complete''] = 5 \<and>
   currentStageIndex ([''Export ready'', ''Pipeline Complete''] @ [''Pipeline Complete'']) = 6"
  by code_simp

section \<open>Properties of the calibration in FloorPlanWorkspace\<close>

subsection \<open>What holds when a render separates the events\<close>

text \<open>
  Right after a render the handlers read the pending state itself. Then a click appends
  exactly when calibration is on and fewer than two points are stored, and no event
  takes the list beyond two points.
\<close>

lemma handleImageClick_rendered:
  "rendered c = pending c \<Longrightarrow>
     pending (handleImageClick ar e c) =
       (if isCalibrating (pending c) \<and> length (calibrationPoints (pending c)) < 2
        then (pending c)\<lparr>calibrationPoints := calibrationPoints (pending c) @ [click_point ar e]\<rparr>
        else pending c)"
  by (simp add: handleImageClick_def Let_def)

lemma step_rendered_points_le2:
  "rendered c = pending c \<Longrightarrow> length (calibrationPoints (pending c)) \<le> 2 \<Longrightarrow>
     length (calibrationPoints (pending (step ar c ev))) \<le> 2"
  by (cases ev) (auto simp: handleImageClick_def finishCalibration_def Let_def)

text \<open>
  \<open>finishCalibration\<close> acts only on exactly two rendered points: it queues the distance
  of the two divided by the rendered length (no guard on the divisor), the end of
  calibration and the empty list; otherwise it does nothing. No other event writes
  \<open>pixelsPerMeter\<close>.
\<close>

lemma finishCalibration_two_points:
  "length (calibrationPoints (rendered c)) = 2 \<Longrightarrow>
     pending (finishCalibration ar c) =
       (pending c)\<lparr>pixelsPerMeter :=
           num_div ar
             (Math_sqrt ar (num_add ar
                (Math_pow ar (num_sub ar (point_x (calibrationPoints (rendered c) ! 1))
                                         (point_x (calibrationPoints (rendered c) ! 0))) (num_lit ar ''2''))
                (Math_pow ar (num_sub ar (point_y (calibrationPoints (rendered c) ! 1))
                                         (point_y (calibrationPoints (rendered c) ! 0))) (num_lit ar ''2''))))
             (calibrationLength (rendered c)),
         isCalibrating := False, calibrationPoints := []\<rparr>"
  by (simp add: finishCalibration_def Let_def)

lemma finishCalibration_other:
  "length (calibrationPoints (rendered c)) \<noteq> 2 \<Longrightarrow> finishCalibration ar c = c"
  by (simp add: finishCalibration_def)

lemma step_pixelsPerMeter:
  "ev \<noteq> Finish \<Longrightarrow> pixelsPerMeter (pending (step ar c ev)) = pixelsPerMeter (pending c)"
  by (cases ev) (auto simp: handleImageClick_def Let_def)

subsection \<open>Clicks that no render separates\<close>

text \<open>
  C10. The bound of two calibration points does not hold of the code. The guard of
  \<open>handleImageClick\<close> reads the list of the last render, the append extends the pending
  list: of four clicks handled before the next render each sees the empty rendered
  list, each appends, and the list holds four points once rendered. The same four
  clicks with a render after each leave two points.
\<close>

theorem calibration_points_overrun:
  "map point_x (calibrationPoints (rendered
     (run real_arith (FloorPlanWorkspace real_arith)
        [StartCalibration, Render,
         ImageClick (click_at 0 0), ImageClick (click_at 3 4),
         ImageClick (click_at 7 7), ImageClick (click_at 9 9), Render]))) = [0, 3, 7, 9] \<and>
   length (calibrationPoints (rendered
     (run real_arith (FloorPlanWorkspace real_arith)
        [StartCalibration, Render,
         ImageClick (click_at 0 0), ImageClick (click_at 3 4),
         ImageClick (click_at 7 7), ImageClick (click_at 9 9), Render]))) = 4 \<and>
   map point_x (calibrationPoints (rendered
     (run real_arith (FloorPlanWorkspace real_arith)
        [StartCalibration, Render,
         ImageClick (click_at 0 0), Render, ImageClick (click_at 3 4), Render,
         ImageClick (click_at 7 7), Render, ImageClick (click_at 9 9), Render]))) = [0, 3]"
  by (simp add: run_def FloorPlanWorkspace_def handleImageClick_def click_point_def
      click_at_def real_arith_def Let_def)

section \<open>Properties of the Convergence Controller\<close>

subsection \<open>One iteration and the loop\<close>

lemma fix_and_revalidate_session:
  assumes "fix_and_revalidate actions ruleSet clock s prev session = (s', r, session')"
  shows "iteration_counter session' = iteration_counter session + 1"
    and "reports session' = reports session @ [r]"
    and "length (fix_outcomes session') = length (fix_outcomes session) + 1"
    and "termination_reason session' = termination_reason session"
    and "r = validate (clock (iteration_counter session + 1)) (iteration_counter session + 1) s' ruleSet"
    and "s' = fst (fix_pass actions s (filter fixable (violations prev)))"
  using assms
  by (auto simp: fix_and_revalidate_def Let_def split: prod.splits)

lemma fix_loop_cases:
  assumes far: "fix_and_revalidate actions ruleSet clock s prev session = (s1, r, session1)"
  shows "fix_loop M actions ruleSet clock s prev session =
     (if progress_signature r = progress_signature prev
      then (s1, session1\<lparr>termination_reason := Some Stalled\<rparr>)
      else if pass r
      then (s1, session1\<lparr>termination_reason := Some Clean\<rparr>)
      else if M \<le> iteration_counter session1
      then (s1, session1\<lparr>termination_reason := Some MaxIterationsExceeded\<rparr>)
      else fix_loop M actions ruleSet clock s1 r session1)"
  by (subst fix_loop.simps) (simp only: far prod.case)


lemma stop_session_ok:
  assumes cnt: "iteration_counter session = length (reports session)"
    and outs: "length (fix_outcomes session) + 1 = length (reports session)"
    and ne: "reports session \<noteq> []"
    and lst: "last (reports session) = prev"
    and inv: "\<forall>i. 0 < i \<and> i < length (reports session) \<longrightarrow>
        progress_signature (reports session ! i) \<noteq> progress_signature (reports session ! (i - 1))"
    and far: "fix_and_revalidate actions ruleSet clock s prev session = (s1, r, session1)"
    and X: "X \<in> {Clean, Stalled, MaxIterationsExceeded}"
    and stalled: "X = Stalled \<longleftrightarrow> progress_signature r = progress_signature prev"
    and clean: "X = Clean \<longrightarrow> pass r"
    and maxed: "X = MaxIterationsExceeded \<longrightarrow> M \<le> iteration_counter session1 \<and> \<not> pass r"
  shows "session_ok M clock ruleSet s1 (session1\<lparr>termination_reason := Some X\<rparr>)"
proof -
  note f = fix_and_revalidate_session [OF far]
  let ?rs = "reports session"
  have len: "length (reports session1) = Suc (length ?rs)"
    by (simp add: f(2))
  have prev: "?rs ! (length ?rs - 1) = prev"
    using ne lst by (simp add: last_conv_nth)
  have pairs: "(progress_signature ((?rs @ [r]) ! i) = progress_signature ((?rs @ [r]) ! (i - 1)))
      = (i = length ?rs \<and> X = Stalled)" if "0 < i" "i < Suc (length ?rs)" for i
  proof (cases "i < length ?rs")
    case True
    then have "i - 1 < length ?rs" by simp
    with True that inv show ?thesis by (simp add: nth_append)
  next
    case False
    with that have i: "i = length ?rs" by simp
    with ne have "(?rs @ [r]) ! (i - 1) = prev"
      using prev by (simp add: nth_append)
    with i stalled show ?thesis by simp
  qed
  have "0 < length ?rs" using ne by simp
  then have two: "2 \<le> Suc (length ?rs)" by linarith
  show ?thesis
    unfolding session_ok_def
    using cnt outs X clean maxed two pairs
    by (simp add: f len)
qed


lemma fix_loop_session_ok:
  assumes "fix_loop M actions ruleSet clock s prev session = (s', session')"
    and "iteration_counter session = length (reports session)"
    and "length (fix_outcomes session) + 1 = length (reports session)"
    and "reports session \<noteq> []"
    and "last (reports session) = prev"
    and "\<forall>i. 0 < i \<and> i < length (reports session) \<longrightarrow>
        progress_signature (reports session ! i) \<noteq> progress_signature (reports session ! (i - 1))"
  shows "session_ok M clock ruleSet s' session' \<and>
         length (reports session) < length (reports session') \<and>
         length (reports session') \<le> max (length (reports session) + 1) M"
  using assms
proof (induction M actions ruleSet clock s prev session rule: fix_loop.induct)
  case (1 M actions ruleSet clock s prev session)
  obtain s1 r session1 where far:
    "fix_and_revalidate actions ruleSet clock s prev session = (s1, r, session1)"
    by (cases "fix_and_revalidate actions ruleSet clock s prev session") auto
  note f = fix_and_revalidate_session [OF far]
  note unfold = fix_loop_cases [OF far, of M]
  note stop = stop_session_ok [OF "1.prems"(2,3,4,5,6) far, of _ M]
  have len1: "length (reports session1) = length (reports session) + 1"
    by (simp add: f(2))
  consider (stalled) "progress_signature r = progress_signature prev"
    | (clean) "progress_signature r \<noteq> progress_signature prev" "pass r"
    | (maxed) "progress_signature r \<noteq> progress_signature prev" "\<not> pass r"
        "M \<le> iteration_counter session1"
    | (again) "progress_signature r \<noteq> progress_signature prev" "\<not> pass r"
        "\<not> M \<le> iteration_counter session1"
    by blast
  then show ?case
  proof cases
    case stalled
    with "1.prems"(1) unfold
    have res: "s' = s1" "session' = session1\<lparr>termination_reason := Some Stalled\<rparr>"
      by simp_all
    have "session_ok M clock ruleSet s1 (session1\<lparr>termination_reason := Some Stalled\<rparr>)"
      using stalled by (intro stop) simp_all
    then show ?thesis by (simp add: res len1)
  next
    case clean
    with "1.prems"(1) unfold
    have res: "s' = s1" "session' = session1\<lparr>termination_reason := Some Clean\<rparr>"
      by simp_all
    have "session_ok M clock ruleSet s1 (session1\<lparr>termination_reason := Some Clean\<rparr>)"
      using clean by (intro stop) simp_all
    then show ?thesis by (simp add: res len1)
  next
    case maxed
    with "1.prems"(1) unfold
    have res: "s' = s1" "session' = session1\<lparr>termination_reason := Some MaxIterationsExceeded\<rparr>"
      by simp_all
    have "session_ok M clock ruleSet s1 (session1\<lparr>termination_reason := Some MaxIterationsExceeded\<rparr>)"
      using maxed by (intro stop) simp_all
    then show ?thesis by (simp add: res len1)
  next
    case again
    with "1.prems"(1) unfold
    have run: "fix_loop M actions ruleSet clock s1 r session1 = (s', session')"
      by simp
    have cnt1: "iteration_counter session1 = length (reports session1)"
      using "1.prems"(2) by (simp add: f)
    have outs1: "length (fix_outcomes session1) + 1 = length (reports session1)"
      using "1.prems"(3) by (simp add: f)
    have ne1: "reports session1 \<noteq> []" and last1: "last (reports session1) = r"
      by (simp_all add: f(2))
    have prev: "reports session ! (length (reports session) - 1) = prev"
      using "1.prems"(4,5) by (simp add: last_conv_nth)
    have inv1: "\<forall>i. 0 < i \<and> i < length (reports session1) \<longrightarrow>
        progress_signature (reports session1 ! i) \<noteq> progress_signature (reports session1 ! (i - 1))"
    proof (intro allI impI)
      fix i assume i: "0 < i \<and> i < length (reports session1)"
      show "progress_signature (reports session1 ! i) \<noteq> progress_signature (reports session1 ! (i - 1))"
      proof (cases "i < length (reports session)")
        case True
        then have "i - 1 < length (reports session)" by simp
        with True i "1.prems"(6) show ?thesis by (simp add: f(2) nth_append)
      next
        case False
        with i have "i = length (reports session)" by (simp add: len1)
        with again(1) prev "1.prems"(4) show ?thesis by (simp add: f(2) nth_append)
      qed
    qed
    have IH: "session_ok M clock ruleSet s' session' \<and>
         length (reports session1) < length (reports session') \<and>
         length (reports session') \<le> max (length (reports session1) + 1) M"
      using "1.IH" [OF far [symmetric] refl again(1) again(2) again(3) run cnt1 outs1 ne1 last1 inv1] .
    have "length (reports session1) < M"
      using again(3) cnt1 by simp
    with IH show ?thesis by (simp add: len1)
  qed
qed


lemma autoFix_session_ok:
  assumes "autoFix M actions ruleSet clock s = (s', session')"
  shows "session_ok M clock ruleSet s' session' \<and>
         reports session' \<noteq> [] \<and>
         length (reports session') \<le> max 2 M \<and>
         (length (reports session') = 1 \<longrightarrow> termination_reason session' = Some Clean)"
proof (cases "pass (validate (clock 1) 1 s ruleSet)")
  case True
  with assms have res: "s' = s"
    "session' = \<lparr>iteration_counter = 1, reports = [validate (clock 1) 1 s ruleSet],
        fix_outcomes = [], termination_reason = Some Clean\<rparr>"
    by (auto simp: autoFix_def Let_def)
  show ?thesis
    using True by (auto simp: res session_ok_def)
next
  case False
  let ?r0 = "validate (clock 1) 1 s ruleSet"
  let ?s0 = "\<lparr>iteration_counter = 1, reports = [?r0], fix_outcomes = [], termination_reason = None\<rparr>"
  from False assms have run: "fix_loop M actions ruleSet clock s ?r0 ?s0 = (s', session')"
    by (simp add: autoFix_def Let_def)
  have "session_ok M clock ruleSet s' session' \<and>
         length (reports ?s0) < length (reports session') \<and>
         length (reports session') \<le> max (length (reports ?s0) + 1) M"
    by (rule fix_loop_session_ok [OF run]) auto
  then show ?thesis by auto
qed


subsection \<open>Termination and the iteration bound\<close>

text \<open>
  C1 (amended). For every scene, ruleset, set of fix actions and bound \<open>M\<close>, \<open>autoFix\<close>
  terminates with one of the three outcomes (the loop's termination is proved with the
  definition of \<open>fix_loop\<close>). A session makes as many validate calls as it has reports
  and one fix pass less; it makes at most \<open>max 2 M\<close> validate calls, so for a bound of at
  least 2 at most \<open>M\<close> validate calls and fewer than \<open>M\<close> fix passes. The report the
  session carries is the last validation, taken of the scene as the session leaves it.
  The outcome is \<open>MaxIterationsExceeded\<close> exactly when the number of reports has
  reached the bound, the last report does not pass and its signature differs from the
  one before.
\<close>

theorem autoFix_terminates_within_bound:
  assumes "autoFix M actions ruleSet clock s = (s', session)"
  shows "termination_reason session \<in> {Some Clean, Some Stalled, Some MaxIterationsExceeded} \<and>
         iteration_counter session = length (reports session) \<and>
         length (fix_outcomes session) + 1 = length (reports session) \<and>
         length (reports session) \<le> max 2 M \<and>
         (2 \<le> M \<longrightarrow> length (reports session) \<le> M \<and> length (fix_outcomes session) < M) \<and>
         final_report session =
           validate (clock (length (reports session))) (length (reports session)) s' ruleSet \<and>
         (termination_reason session = Some MaxIterationsExceeded \<longleftrightarrow>
            M \<le> length (reports session) \<and> \<not> pass (final_report session) \<and>
            progress_signature (reports session ! (length (reports session) - 1)) \<noteq>
              progress_signature (reports session ! (length (reports session) - 2)))"
proof -
  let ?n = "length (reports session)"
  from autoFix_session_ok [OF assms]
  have ok: "session_ok M clock ruleSet s' session" and ne: "reports session \<noteq> []"
    and le: "?n \<le> max 2 M"
    and one: "?n = 1 \<longrightarrow> termination_reason session = Some Clean"
    by simp_all
  note parts = ok [unfolded session_ok_def final_report_def [symmetric]]
  from parts have reason:
    "termination_reason session \<in> {Some Clean, Some Stalled, Some MaxIterationsExceeded}"
    by blast
  from parts have cnt: "iteration_counter session = ?n"
    by blast
  from parts have outs: "length (fix_outcomes session) + 1 = ?n"
    by blast
  from parts have fin: "final_report session = validate (clock ?n) ?n s' ruleSet"
    by blast
  from parts have pairs: "0 < i \<Longrightarrow> i < ?n \<Longrightarrow>
        (progress_signature (reports session ! i) = progress_signature (reports session ! (i - 1))
           \<longleftrightarrow> Suc i = ?n \<and> termination_reason session = Some Stalled)" for i
    by blast
  from parts have clean: "termination_reason session = Some Clean \<Longrightarrow> pass (final_report session)"
    by blast
  from parts have maxed: "termination_reason session = Some MaxIterationsExceeded \<Longrightarrow>
        M \<le> ?n \<and> \<not> pass (final_report session)"
    by blast
  have bound: "2 \<le> M \<longrightarrow> ?n \<le> M \<and> length (fix_outcomes session) < M"
    using le outs by auto
  have "0 < ?n" using ne by simp
  have last2: "progress_signature (reports session ! (?n - 1)) = progress_signature (reports session ! (?n - 2))
      \<longleftrightarrow> termination_reason session = Some Stalled" if "2 \<le> ?n"
  proof -
    have "?n - 1 - 1 = ?n - 2" by simp
    moreover have "0 < ?n - 1" "?n - 1 < ?n" "Suc (?n - 1) = ?n" using that by simp_all
    ultimately show ?thesis using pairs [of "?n - 1"] by simp
  qed
  have two: "2 \<le> ?n" if "termination_reason session \<noteq> Some Clean"
  proof -
    from that one have "?n \<noteq> 1" by blast
    with \<open>0 < ?n\<close> show ?thesis by linarith
  qed
  have char: "termination_reason session = Some MaxIterationsExceeded \<longleftrightarrow>
            M \<le> ?n \<and> \<not> pass (final_report session) \<and>
            progress_signature (reports session ! (?n - 1)) \<noteq>
              progress_signature (reports session ! (?n - 2))"
  proof
    assume m: "termination_reason session = Some MaxIterationsExceeded"
    then have "2 \<le> ?n" by (intro two) simp
    from last2 [OF this] m maxed [OF m] show "M \<le> ?n \<and> \<not> pass (final_report session) \<and>
            progress_signature (reports session ! (?n - 1)) \<noteq>
              progress_signature (reports session ! (?n - 2))"
      by simp
  next
    assume r: "M \<le> ?n \<and> \<not> pass (final_report session) \<and>
            progress_signature (reports session ! (?n - 1)) \<noteq>
              progress_signature (reports session ! (?n - 2))"
    then have nc: "termination_reason session \<noteq> Some Clean" using clean by blast
    from last2 [OF two [OF nc]] r have "termination_reason session \<noteq> Some Stalled" by simp
    with nc reason show "termination_reason session = Some MaxIterationsExceeded" by auto
  qed
  from reason cnt outs le bound fin char show ?thesis by blast
qed

theorem autoFix_terminates_within_bound_witness:
  "autoFix 3 [fix_A, fix_B] [rule_A, rule_B] tick (True, False) =
     (fst (autoFix 3 [fix_A, fix_B] [rule_A, rule_B] tick (True, False)),
      snd (autoFix 3 [fix_A, fix_B] [rule_A, rule_B] tick (True, False))) \<and>
   2 \<le> (3::nat) \<and>
   length (reports (snd (autoFix 3 [fix_A, fix_B] [rule_A, rule_B] tick (True, False)))) = 3 \<and>
   length (fix_outcomes (snd (autoFix 3 [fix_A, fix_B] [rule_A, rule_B] tick (True, False)))) = 2 \<and>
   iteration_counter (snd (autoFix 3 [fix_A, fix_B] [rule_A, rule_B] tick (True, False))) = 3 \<and>
   termination_reason (snd (autoFix 3 [fix_A, fix_B] [rule_A, rule_B] tick (True, False)))
     = Some MaxIterationsExceeded"
proof -
  let ?run = "autoFix 3 [fix_A, fix_B] [rule_A, rule_B] tick (True, False)"
  have pair: "?run = (fst ?run, snd ?run)"
    by simp
  have n: "length (reports (snd ?run)) = 3"
    by code_simp
  have r: "termination_reason (snd ?run) = Some MaxIterationsExceeded"
    by code_simp
  from autoFix_terminates_within_bound [OF pair] n r show ?thesis
    by simp
qed

text \<open>
  The bound on the calls fails for a bound below 2, and a session that reaches the
  bound without a clean report need not end as \<open>MaxIterationsExceeded\<close>. With a fix
  that always fails, the second report repeats the first signature: under the bound 1
  the session has made two validate calls, and under the bound 2 it ends at iteration 2
  with a failing report as \<open>Stalled\<close>. Under the bound 0 a clean scene is still
  validated once, and a scene with a violation still gets one fix pass.
\<close>

theorem autoFix_bound_counterexample:
  "length (reports (snd (autoFix 1 [fix_stuck] [rule_A] tick (True, False)))) = 2 \<and>
   length (fix_outcomes (snd (autoFix 1 [fix_stuck] [rule_A] tick (True, False)))) = 1 \<and>
   iteration_counter (snd (autoFix 2 [fix_stuck] [rule_A] tick (True, False))) = 2 \<and>
   \<not> pass (final_report (snd (autoFix 2 [fix_stuck] [rule_A] tick (True, False)))) \<and>
   termination_reason (snd (autoFix 2 [fix_stuck] [rule_A] tick (True, False))) = Some Stalled \<and>
   length (reports (snd (autoFix 0 [fix_stuck] [rule_A] tick (False, False)))) = 1 \<and>
   length (fix_outcomes (snd (autoFix 0 [fix_stuck] [rule_A] tick (True, False)))) = 1"
  by code_simp

subsection \<open>Stall detection\<close>




end
